theory Spec2Isabelle
  imports Main "HOL-Library.Multiset"
begin

section \<open>Secret-santa assignment search and password generation (app.py)\<close>

text \<open>
  The two algorithmic functions of \<^verbatim>\<open>app.py\<close> are \<^verbatim>\<open>find_assignment\<close>
  (lines 162-179) and \<^verbatim>\<open>gen_password_christmas\<close> (lines 131-157); the row
  validation of the \<^verbatim>\<open>admin_matrix\<close> route (lines 237-252) is the only other
  place that inspects the compatibility matrix. All three are embedded here.
  Python's process-wide random generator becomes an explicit state that every
  function using it takes and returns; an exception becomes an \<open>Inl\<close> result.
\<close>

subsection \<open>Errors and indexing\<close>

datatype py_error = IndexError

text \<open>\<^verbatim>\<open>xs[i]\<close> for an index \<open>i \<ge> 0\<close>: Python raises IndexError out of range.
  Every index in the embedded code comes from \<^verbatim>\<open>range\<close>, \<^verbatim>\<open>enumerate\<close> or a
  shuffled \<^verbatim>\<open>range\<close>, hence is never negative.\<close>

definition getitem :: "'a list \<Rightarrow> nat \<Rightarrow> py_error + 'a" where
  "getitem xs i = (if i < length xs then Inr (xs ! i) else Inl IndexError)"

subsection \<open>The random source\<close>

text \<open>
  The generator is a tape of raw draws together with the number of draws
  consumed so far. \<open>randbelow n\<close> is the primitive under \<^verbatim>\<open>random.shuffle\<close>,
  \<^verbatim>\<open>random.choice\<close> and \<^verbatim>\<open>random.randint\<close>: it consumes one draw and yields a
  number below \<open>n\<close>. Reducing the raw draw modulo \<open>n\<close> makes every tape
  admissible, and every value below \<open>n\<close> is produced by some tape, so a
  statement for all tapes covers every behaviour of the generator.
\<close>

record rng =
  tape :: "nat \<Rightarrow> nat"
  drawn :: nat

definition randbelow :: "nat \<Rightarrow> rng \<Rightarrow> nat \<times> rng" where
  "randbelow n g = (tape g (drawn g) mod n, g\<lparr>drawn := Suc (drawn g)\<rparr>)"

text \<open>A generator whose every raw draw is \<open>c\<close>, with \<open>d\<close> draws already consumed.\<close>

definition const_rng :: "nat \<Rightarrow> nat \<Rightarrow> rng" where
  "const_rng c d = \<lparr>tape = (\<lambda>_. c), drawn = d\<rparr>"

text \<open>A generator whose raw draws are the elements of \<open>xs\<close>, followed by zeros.\<close>

definition list_rng :: "nat list \<Rightarrow> rng" where
  "list_rng xs = \<lparr>tape = (\<lambda>t. if t < length xs then xs ! t else 0), drawn = 0\<rparr>"

text \<open>
  \<^verbatim>\<open>random.shuffle(x)\<close> (Fisher-Yates, as in CPython):
  \<^verbatim>\<open>for i in reversed(range(1, len(x))): j = randbelow(i + 1); x[i], x[j] = x[j], x[i]\<close>.
  \<open>shuffle_from k\<close> runs the iterations \<open>i = k, k - 1, ..., 1\<close>.
\<close>

fun shuffle_from :: "nat \<Rightarrow> 'a list \<Rightarrow> rng \<Rightarrow> 'a list \<times> rng" where
  "shuffle_from 0 x g = (x, g)"
| "shuffle_from (Suc k) x g =
     (let (j, g') = randbelow (Suc k + 1) g
      in shuffle_from k (x[Suc k := x ! j, j := x ! Suc k]) g')"

definition shuffle :: "'a list \<Rightarrow> rng \<Rightarrow> 'a list \<times> rng" where
  "shuffle x g = shuffle_from (length x - 1) x g"

text \<open>\<^verbatim>\<open>random.choice(seq)\<close>: IndexError on an empty sequence, else
  \<^verbatim>\<open>seq[randbelow(len(seq))]\<close>.\<close>

definition choice :: "'a list \<Rightarrow> rng \<Rightarrow> (py_error + 'a) \<times> rng" where
  "choice seq g =
     (if seq = [] then (Inl IndexError, g)
      else (let (j, g') = randbelow (length seq) g in (Inr (seq ! j), g')))"

text \<open>\<^verbatim>\<open>random.randint(a, b)\<close> for \<open>a \<le> b\<close>: \<^verbatim>\<open>a + randbelow(b - a + 1)\<close>.\<close>

definition randint :: "nat \<Rightarrow> nat \<Rightarrow> rng \<Rightarrow> nat \<times> rng" where
  "randint a b g = (let (r, g') = randbelow (b - a + 1) g in (a + r, g'))"

subsection \<open>Decimal rendering of a number inside an f-string\<close>

text \<open>The digit \<open>d < 10\<close> as a character.\<close>

definition digit_char :: "nat \<Rightarrow> char" where
  "digit_char d = ''0123456789'' ! d"

fun str_nat :: "nat \<Rightarrow> string" where
  "str_nat n = (if n < 10 then [digit_char n] else str_nat (n div 10) @ [digit_char (n mod 10)])"

declare str_nat.simps [simp del]

subsection \<open>\<^verbatim>\<open>gen_password_christmas\<close>\<close>

definition adjectifs :: "string list" where
  "adjectifs =
     [''joyeux'', ''blanc'', ''rouge'', ''vert'', ''dore'', ''argente'', ''brillant'',
      ''festif'', ''magique'', ''hivernal'', ''sucre'', ''gourmand'', ''glace'',
      ''etincelant'', ''lumineux'',
      ''merveilleux'', ''etonnant'', ''petillant'', ''enchante'', ''radieux'',
      ''epique'', ''fantastique'']"

definition noms :: "string list" where
  "noms =
     [''sapin'', ''renne'', ''lutin'', ''traineau'', ''bonnet'', ''cadeau'',
      ''houx'', ''flocon'', ''pain_depice'',
      ''ours'', ''elfe'', ''jouet'', ''carillon'',
      ''bonhomme'',
      ''ruban'', ''pere_noel'', ''rudolf'']"

text \<open>The loop body's \<^verbatim>\<open>f"{random.choice(adjectifs)}_{random.choice(noms)}"\<close>:
  the adjective is drawn first, then the noun.\<close>

definition candidate :: "rng \<Rightarrow> (py_error + string) \<times> rng" where
  "candidate g =
     (case choice adjectifs g of
        (Inl e, g1) \<Rightarrow> (Inl e, g1)
      | (Inr a, g1) \<Rightarrow>
          (case choice noms g1 of
             (Inl e, g2) \<Rightarrow> (Inl e, g2)
           | (Inr b, g2) \<Rightarrow> (Inr (a @ ''_'' @ b), g2)))"

text \<open>The candidate that iteration \<open>k\<close> (counted from 0) of the loop forms when
  the loop is entered in state \<open>g\<close>: each iteration before it has consumed the
  two draws of its own candidate.\<close>

definition nth_candidate :: "rng \<Rightarrow> nat \<Rightarrow> py_error + string" where
  "nth_candidate g k = fst (candidate (g\<lparr>drawn := drawn g + 2 * k\<rparr>))"

text \<open>The statement after the loop:
  \<^verbatim>\<open>f"{random.choice(adjectifs)}_{random.choice(noms)}_{random.randint(10,99)}"\<close>.\<close>

definition fallback :: "rng \<Rightarrow> (py_error + string) \<times> rng" where
  "fallback g =
     (case candidate g of
        (Inl e, g2) \<Rightarrow> (Inl e, g2)
      | (Inr c, g2) \<Rightarrow>
          (let (r, g3) = randint 10 99 g2 in (Inr (c @ ''_'' @ str_nat r), g3)))"

text \<open>\<^verbatim>\<open>for _ in range(100): ...\<close> with \<open>k\<close> iterations left: \<open>Some c\<close> is the
  \<^verbatim>\<open>return candidate\<close> inside the loop, \<open>None\<close> is the loop running out.\<close>

fun gen_loop :: "nat \<Rightarrow> string set \<Rightarrow> rng \<Rightarrow> (py_error + string option) \<times> rng" where
  "gen_loop 0 existing_set g = (Inr None, g)"
| "gen_loop (Suc k) existing_set g =
     (case candidate g of
        (Inl e, g') \<Rightarrow> (Inl e, g')
      | (Inr c, g') \<Rightarrow>
          (if c \<notin> existing_set then (Inr (Some c), g')
           else gen_loop k existing_set g'))"

definition gen_password_christmas :: "string set option \<Rightarrow> rng \<Rightarrow> (py_error + string) \<times> rng" where
  "gen_password_christmas existing_set g =
     (let existing_set = (case existing_set of None \<Rightarrow> {} | Some s \<Rightarrow> s)
      in case gen_loop 100 existing_set g of
           (Inl e, g') \<Rightarrow> (Inl e, g')
         | (Inr (Some c), g') \<Rightarrow> (Inr c, g')
         | (Inr None, g') \<Rightarrow> fallback g')"

subsection \<open>\<^verbatim>\<open>find_assignment\<close>\<close>

text \<open>The inner loop \<^verbatim>\<open>for i, j in enumerate(perm)\<close>, started at row \<open>i\<close>; the
  result is the flag \<^verbatim>\<open>ok\<close>, or the IndexError of \<^verbatim>\<open>compat_matrix[i][j]\<close>.\<close>

fun perm_ok :: "int list list \<Rightarrow> nat \<Rightarrow> nat list \<Rightarrow> py_error + bool" where
  "perm_ok compat_matrix i [] = Inr True"
| "perm_ok compat_matrix i (j # js) =
     (case getitem compat_matrix i of
        Inl e \<Rightarrow> Inl e
      | Inr row \<Rightarrow>
          (case getitem row j of
             Inl e \<Rightarrow> Inl e
           | Inr v \<Rightarrow> if v \<noteq> 1 then Inr False else perm_ok compat_matrix (Suc i) js))"

text \<open>The dict comprehension \<^verbatim>\<open>{names[i]: names[perm[i]] for i in range(n)}\<close>,
  over the indices still to come, into the dict built so far: a later index
  overwrites an earlier one with the same name.\<close>

fun dict_comp :: "string list \<Rightarrow> nat list \<Rightarrow> nat list \<Rightarrow> (string \<rightharpoonup> string)
    \<Rightarrow> py_error + (string \<rightharpoonup> string)" where
  "dict_comp names perm [] m = Inr m"
| "dict_comp names perm (i # is) m =
     (case getitem names i of
        Inl e \<Rightarrow> Inl e
      | Inr key \<Rightarrow>
          (case getitem perm i of
             Inl e \<Rightarrow> Inl e
           | Inr j \<Rightarrow>
               (case getitem names j of
                  Inl e \<Rightarrow> Inl e
                | Inr v \<Rightarrow> dict_comp names perm is (m(key \<mapsto> v)))))"

text \<open>\<^verbatim>\<open>for _ in range(max_tries): ...\<close> with \<open>k\<close> iterations left; \<open>Inr None\<close> is
  the final \<^verbatim>\<open>return None\<close>.\<close>

fun find_loop :: "nat \<Rightarrow> string list \<Rightarrow> int list list \<Rightarrow> nat list \<Rightarrow> rng
    \<Rightarrow> (py_error + (string \<rightharpoonup> string) option) \<times> rng" where
  "find_loop 0 names compat_matrix idx g = (Inr None, g)"
| "find_loop (Suc k) names compat_matrix idx g =
     (let (perm, g') = shuffle idx g
      in case perm_ok compat_matrix 0 perm of
           Inl e \<Rightarrow> (Inl e, g')
         | Inr ok \<Rightarrow>
             (if ok then
                (case dict_comp names perm [0..<length names] Map.empty of
                   Inl e \<Rightarrow> (Inl e, g')
                 | Inr m \<Rightarrow> (Inr (Some m), g'))
              else find_loop k names compat_matrix idx g'))"

text \<open>\<^verbatim>\<open>range(max_tries)\<close> is empty for \<open>max_tries \<le> 0\<close>.\<close>

definition find_assignment :: "string list \<Rightarrow> int list list \<Rightarrow> int \<Rightarrow> rng
    \<Rightarrow> (py_error + (string \<rightharpoonup> string) option) \<times> rng" where
  "find_assignment names compat_matrix max_tries g =
     (let n = length names
      in if n = 0 then (Inr (Some Map.empty), g)
         else find_loop (nat max_tries) names compat_matrix [0..<n] g)"

text \<open>The default argument \<^verbatim>\<open>max_tries: int = 100000\<close>.\<close>

definition default_max_tries :: int where
  "default_max_tries = 100000"

subsection \<open>The row validation of \<^verbatim>\<open>admin_matrix\<close> (POST)\<close>

text \<open>The submitted form maps field names to values; the checkbox of cell
  \<open>(i, j)\<close> is the field \<^verbatim>\<open>f"c_{i}_{j}"\<close>.\<close>

definition form_key :: "nat \<Rightarrow> nat \<Rightarrow> string" where
  "form_key i j = ''c_'' @ str_nat i @ ''_'' @ str_nat j"

definition build_compat :: "nat \<Rightarrow> (string \<rightharpoonup> string) \<Rightarrow> int list list" where
  "build_compat n form =
     map (\<lambda>i. map (\<lambda>j. if form (form_key i j) = Some ''on'' then 1 else 0) [0..<n]) [0..<n]"

text \<open>\<^verbatim>\<open>for i in range(n): if sum(compat[i]) == 0: flash(...names[i]...); return ...\<close>
  over the rows still to check: \<open>Some name\<close> is the participant reported.\<close>

fun first_empty_row :: "string list \<Rightarrow> int list list \<Rightarrow> nat list \<Rightarrow> string option" where
  "first_empty_row names compat_m [] = None"
| "first_empty_row names compat_m (i # is) =
     (if sum_list (compat_m ! i) = 0 then Some (names ! i)
      else first_empty_row names compat_m is)"

text \<open>The POST branch: \<open>Inl name\<close> is the rejection naming a participant (nothing
  is saved), \<open>Inr compat\<close> the matrix handed to \<^verbatim>\<open>db_set_config\<close>. The route
  reads \<^verbatim>\<open>compat[i]\<close> and \<^verbatim>\<open>names[i]\<close> for \<open>i < n\<close> only, on lists of length \<open>n\<close>.\<close>

definition admin_matrix_post :: "string list \<Rightarrow> (string \<rightharpoonup> string) \<Rightarrow> string + int list list" where
  "admin_matrix_post names form =
     (let n = length names; compat_m = build_compat n form
      in case first_empty_row names compat_m [0..<n] of
           Some name \<Rightarrow> Inl name
         | None \<Rightarrow> Inr compat_m)"

section \<open>Properties\<close>

subsection \<open>The random source and the shuffle\<close>

lemma randbelow_less: "0 < n \<Longrightarrow> fst (randbelow n g) < n"
  by (simp add: randbelow_def)

lemma randbelow_rng: "snd (randbelow n g) = g\<lparr>drawn := Suc (drawn g)\<rparr>"
  by (simp add: randbelow_def)

lemma shuffle_from_mset:
  "k < length x \<Longrightarrow> mset (fst (shuffle_from k x g)) = mset x"
proof (induction k arbitrary: x g)
  case 0
  then show ?case by simp
next
  case (Suc k)
  obtain j g' where r: "randbelow (Suc k + 1) g = (j, g')" by (cases "randbelow (Suc k + 1) g")
  have "j < Suc k + 1" using randbelow_less [of "Suc k + 1" g] r by simp
  with Suc.prems have j: "j < length x" by simp
  let ?y = "x[Suc k := x ! j, j := x ! Suc k]"
  have "mset ?y = mset x" using mset_swap [OF j Suc.prems] .
  moreover have "mset (fst (shuffle_from k ?y g')) = mset ?y"
    using Suc.prems by (intro Suc.IH) simp
  ultimately show ?case using r by simp
qed

lemma shuffle_from_rng:
  "snd (shuffle_from k x g) = g\<lparr>drawn := drawn g + k\<rparr>"
proof (induction k arbitrary: x g)
  case 0
  then show ?case by simp
next
  case (Suc k)
  show ?case
    by (simp add: Suc.IH randbelow_def split: prod.splits)
qed

lemma shuffle_mset: "mset (fst (shuffle x g)) = mset x"
proof (cases x)
  case Nil
  then show ?thesis by (simp add: shuffle_def)
next
  case (Cons a as)
  then show ?thesis by (simp add: shuffle_def shuffle_from_mset)
qed

lemma shuffle_rng: "snd (shuffle x g) = g\<lparr>drawn := drawn g + (length x - 1)\<rparr>"
  by (simp add: shuffle_def shuffle_from_rng)

lemma perm_ok_True:
  "perm_ok cm i js = Inr True \<Longrightarrow> t < length js \<Longrightarrow>
     i + t < length cm \<and> js ! t < length (cm ! (i + t)) \<and> cm ! (i + t) ! (js ! t) = 1"
proof (induction js arbitrary: i t)
  case Nil
  then show ?case by simp
next
  case (Cons j js)
  from Cons.prems(1) have a: "i < length cm" "j < length (cm ! i)" "cm ! i ! j = 1"
    and b: "perm_ok cm (Suc i) js = Inr True"
    by (auto simp: getitem_def split: if_splits sum.splits)
  show ?case
  proof (cases t)
    case 0
    with a show ?thesis by simp
  next
    case (Suc t')
    with Cons.prems(2) have "t' < length js" by simp
    from Cons.IH [OF b this] Suc show ?thesis by simp
  qed
qed

lemma find_loop_Some:
  "find_loop k names cm idx g = (Inr (Some M), g') \<Longrightarrow>
     \<exists>perm. mset perm = mset idx \<and> perm_ok cm 0 perm = Inr True \<and>
       dict_comp names perm [0..<length names] Map.empty = Inr M"
proof (induction k arbitrary: g)
  case 0
  then show ?case by simp
next
  case (Suc k)
  obtain perm g1 where s: "shuffle idx g = (perm, g1)" by (cases "shuffle idx g")
  have p: "mset perm = mset idx" using shuffle_mset [of idx g] s by simp
  show ?case
  proof (cases "perm_ok cm 0 perm")
    case (Inl e)
    with Suc.prems s show ?thesis by simp
  next
    case (Inr ok)
    show ?thesis
    proof (cases ok)
      case True
      with Suc.prems s Inr p show ?thesis
        by (auto split: sum.splits)
    next
      case False
      with Suc.prems s Inr have "find_loop k names cm idx g1 = (Inr (Some M), g')" by simp
      then show ?thesis by (rule Suc.IH)
    qed
  qed
qed

lemma find_assignment_Some:
  assumes "find_assignment names cm max_tries g = (Inr (Some M), g')"
  shows "\<exists>perm. mset perm = mset [0..<length names] \<and> perm_ok cm 0 perm = Inr True \<and>
       dict_comp names perm [0..<length names] Map.empty = Inr M"
proof (cases "length names = 0")
  case True
  with assms have "M = Map.empty" by (simp add: find_assignment_def)
  with True have "mset [] = mset [0..<length names] \<and> perm_ok cm 0 [] = Inr True \<and>
       dict_comp names [] [0..<length names] Map.empty = Inr M" by simp
  then show ?thesis by blast
next
  case False
  with assms have "find_loop (nat max_tries) names cm [0..<length names] g = (Inr (Some M), g')"
    by (simp add: find_assignment_def)
  then show ?thesis by (rule find_loop_Some)
qed

lemma dict_comp_nth:
  assumes "dict_comp names perm is m = Inr M" and "distinct names" and "i < length names"
  shows "M (names ! i) = (if i \<in> set is then Some (names ! (perm ! i)) else m (names ! i))"
  using assms(1)
proof (induction "is" arbitrary: m)
  case Nil
  then show ?case by simp
next
  case (Cons a rest)
  from Cons.prems have a: "a < length names" "a < length perm" "perm ! a < length names"
    and r: "dict_comp names perm rest (m(names ! a \<mapsto> names ! (perm ! a))) = Inr M"
    by (auto simp: getitem_def split: if_splits sum.splits)
  have eq: "names ! i = names ! a \<longleftrightarrow> i = a"
    using assms(2,3) a(1) by (simp add: nth_eq_iff_index_eq)
  show ?case using Cons.IH [OF r] eq by auto
qed

lemma dict_comp_outside:
  "dict_comp names perm is m = Inr M \<Longrightarrow> x \<notin> set names \<Longrightarrow> M x = m x"
proof (induction "is" arbitrary: m)
  case Nil
  then show ?case by simp
next
  case (Cons a rest)
  from Cons.prems(1) have a: "a < length names"
    and r: "dict_comp names perm rest (m(names ! a \<mapsto> names ! (perm ! a))) = Inr M"
    by (auto simp: getitem_def split: if_splits sum.splits)
  from a Cons.prems(2) have "x \<noteq> names ! a" by auto
  with Cons.IH [OF r Cons.prems(2)] show ?case by simp
qed

lemma perm_facts:
  assumes "mset perm = mset [0..<n]"
  shows "length perm = n" and "distinct perm" and "set perm = {0..<n}"
proof -
  show "length perm = n" using assms by (metis length_upt minus_nat.diff_0 size_mset)
  show "distinct perm" using assms by (metis distinct_upt mset_eq_imp_distinct_iff)
  show "set perm = {0..<n}" using assms by (metis atLeastLessThan_upt mset_eq_setD)
qed

lemma find_loop_accept:
  assumes "0 < k" and "shuffle idx g = (perm, g')" and "perm_ok cm 0 perm = Inr True"
    and "dict_comp names perm [0..<length names] Map.empty = Inr m"
  shows "find_loop k names cm idx g = (Inr (Some m), g')"
proof -
  from assms(1) obtain k' where "k = Suc k'" by (cases k) auto
  with assms(2-4) show ?thesis by simp
qed

lemma find_loop_reject:
  assumes "0 < k" and "shuffle idx g = (perm, g')" and "perm_ok cm 0 perm = Inr False"
  shows "find_loop k names cm idx g = find_loop (k - 1) names cm idx g'"
proof -
  from assms(1) obtain k' where "k = Suc k'" by (cases k) auto
  with assms(2-3) show ?thesis by simp
qed

lemma find_loop_raise:
  assumes "0 < k" and "shuffle idx g = (perm, g')" and "perm_ok cm 0 perm = Inl e"
  shows "find_loop k names cm idx g = (Inl e, g')"
proof -
  from assms(1) obtain k' where "k = Suc k'" by (cases k) auto
  with assms(2-3) show ?thesis by simp
qed

lemma shuffle2_zero: "shuffle [0, Suc 0] (const_rng 0 0) = ([Suc 0, 0], const_rng 0 1)"
  by (simp add: shuffle_def randbelow_def const_rng_def)

lemma find_assignment_swap2_zero:
  "find_assignment [''A'', ''B''] [[0, 1], [1, 0]] default_max_tries (const_rng 0 0)
     = (Inr (Some [''A'' \<mapsto> ''B'', ''B'' \<mapsto> ''A'']), const_rng 0 1)"
proof -
  have "find_loop (nat default_max_tries) [''A'', ''B''] [[0, 1], [1, 0]] [0, Suc 0] (const_rng 0 0)
     = (Inr (Some [''A'' \<mapsto> ''B'', ''B'' \<mapsto> ''A'']), const_rng 0 1)"
    by (rule find_loop_accept [OF _ shuffle2_zero])
      (simp_all add: default_max_tries_def getitem_def)
  then show ?thesis by (simp add: find_assignment_def)
qed

subsection \<open>Claims about \<^verbatim>\<open>find_assignment\<close>\<close>

text \<open>
  Claim C1 (soundness). Whenever \<open>find_assignment\<close> returns a mapping \<open>M\<close>, there is
  a permutation \<open>perm\<close> of \<open>[0, n)\<close> such that \<open>M\<close> is the dict built by the
  comprehension \<^verbatim>\<open>{names[i]: names[perm[i]] for i in range(n)}\<close> and every
  \<open>compat_matrix[i][perm[i]]\<close> exists and equals 1; for distinct names this reads
  \<open>M[names[i]] = names[perm[i]]\<close> for every \<open>i\<close>. No assumption on the shape or
  the entries of the matrix is needed.
\<close>

theorem find_assignment_sound:
  assumes "find_assignment names compat_matrix max_tries g = (Inr (Some M), g')"
  shows "\<exists>perm. mset perm = mset [0..<length names] \<and>
           dict_comp names perm [0..<length names] Map.empty = Inr M \<and>
           (\<forall>i<length names. i < length compat_matrix \<and> perm ! i < length (compat_matrix ! i) \<and>
               compat_matrix ! i ! (perm ! i) = 1) \<and>
           (distinct names \<longrightarrow> (\<forall>i<length names. M (names ! i) = Some (names ! (perm ! i))))"
proof -
  from find_assignment_Some [OF assms] obtain perm where
    p: "mset perm = mset [0..<length names]" and ok: "perm_ok compat_matrix 0 perm = Inr True"
    and d: "dict_comp names perm [0..<length names] Map.empty = Inr M" by blast
  have len: "length perm = length names" using perm_facts(1) [OF p] .
  have c: "\<forall>i<length names. i < length compat_matrix \<and> perm ! i < length (compat_matrix ! i) \<and>
               compat_matrix ! i ! (perm ! i) = 1"
    using perm_ok_True [OF ok, of _] len by simp
  have "distinct names \<longrightarrow> (\<forall>i<length names. M (names ! i) = Some (names ! (perm ! i)))"
    using dict_comp_nth [OF d] by simp
  with p d c show ?thesis by blast
qed

theorem find_assignment_sound_witness:
  "find_assignment [''A'', ''B''] [[0, 1], [1, 0]] default_max_tries (const_rng 0 0)
     = (Inr (Some [''A'' \<mapsto> ''B'', ''B'' \<mapsto> ''A'']), const_rng 0 1) \<and>
   (\<exists>perm. mset perm = mset [0..<length [''A'', ''B'']] \<and>
      dict_comp [''A'', ''B''] perm [0..<length [''A'', ''B'']] Map.empty
        = Inr [''A'' \<mapsto> ''B'', ''B'' \<mapsto> ''A''] \<and>
      (\<forall>i<length [''A'', ''B'']. i < length [[0, 1], [1, 0::int]] \<and>
          perm ! i < length ([[0, 1], [1, 0::int]] ! i) \<and>
          [[0, 1], [1, 0::int]] ! i ! (perm ! i) = 1) \<and>
      (distinct [''A'', ''B''] \<longrightarrow>
         (\<forall>i<length [''A'', ''B''].
            [''A'' \<mapsto> ''B'', ''B'' \<mapsto> ''A''] ([''A'', ''B''] ! i) = Some ([''A'', ''B''] ! (perm ! i)))))"
  using find_assignment_sound [OF find_assignment_swap2_zero] find_assignment_swap2_zero
  by blast

text \<open>
  Claim C5 (empty input). With no names, \<open>find_assignment\<close> returns the empty
  mapping and leaves the random source untouched, whatever the matrix, the
  budget and the tape are.
\<close>

theorem find_assignment_empty:
  "find_assignment [] compat_matrix max_tries g = (Inr (Some Map.empty), g)"
  by (simp add: find_assignment_def)

lemma find_assignment_lookup:
  assumes "distinct names"
    and "find_assignment names cm max_tries g = (Inr (Some M), g')"
  shows "\<exists>perm. mset perm = mset [0..<length names] \<and>
           (\<forall>i<length names. M (names ! i) = Some (names ! (perm ! i))) \<and>
           (\<forall>x. x \<notin> set names \<longrightarrow> M x = None)"
proof -
  from find_assignment_Some [OF assms(2)] obtain perm where
    p: "mset perm = mset [0..<length names]"
    and d: "dict_comp names perm [0..<length names] Map.empty = Inr M" by blast
  have "\<forall>i<length names. M (names ! i) = Some (names ! (perm ! i))"
    using dict_comp_nth [OF d assms(1)] by simp
  moreover have "\<forall>x. x \<notin> set names \<longrightarrow> M x = None"
    using dict_comp_outside [OF d] by simp
  ultimately show ?thesis using p by blast
qed

text \<open>
  Claim C2 (bijectivity). For distinct names, a returned mapping has exactly the
  names as its keys and as its values, it is a bijection of the set of names
  onto itself, and its values listed in the order of the names are a
  permutation of the names.
\<close>

theorem find_assignment_bijective:
  assumes "distinct names"
    and "find_assignment names compat_matrix max_tries g = (Inr (Some M), g')"
  shows "dom M = set names \<and> ran M = set names \<and>
         bij_betw (\<lambda>x. the (M x)) (set names) (set names) \<and>
         mset (map (\<lambda>x. the (M x)) names) = mset names"
proof -
  let ?n = "length names"
  from find_assignment_lookup [OF assms] obtain perm where
    p: "mset perm = mset [0..<?n]"
    and l: "\<And>i. i < ?n \<Longrightarrow> M (names ! i) = Some (names ! (perm ! i))"
    and o: "\<And>x. x \<notin> set names \<Longrightarrow> M x = None" by blast
  note pf = perm_facts [OF p]
  have vals: "map (\<lambda>x. the (M x)) names = map ((!) names) perm"
  proof (rule nth_equalityI)
    show "length (map (\<lambda>x. the (M x)) names) = length (map ((!) names) perm)"
      using pf(1) by simp
  next
    fix i assume "i < length (map (\<lambda>x. the (M x)) names)"
    then have "i < ?n" by simp
    then show "map (\<lambda>x. the (M x)) names ! i = map ((!) names) perm ! i"
      using l pf(1) by simp
  qed
  have "mset (map ((!) names) perm) = image_mset ((!) names) (mset perm)" by simp
  also have "\<dots> = image_mset ((!) names) (mset [0..<?n])" using p by simp
  also have "\<dots> = mset (map ((!) names) [0..<?n])" by simp
  also have "\<dots> = mset names" by (simp add: map_nth)
  finally have ms: "mset (map (\<lambda>x. the (M x)) names) = mset names" using vals by simp
  have dom: "dom M = set names"
  proof
    show "dom M \<subseteq> set names" using o by (force simp: dom_def)
    show "set names \<subseteq> dom M" using l by (auto simp: in_set_conv_nth)
  qed
  from ms have img: "(\<lambda>x. the (M x)) ` set names = set names"
    by (metis list.set_map mset_eq_setD)
  have ran: "ran M = set names"
  proof -
    have "ran M = (\<lambda>x. the (M x)) ` dom M"
      by (force simp: ran_def dom_def image_iff)
    with dom img show ?thesis by simp
  qed
  have "distinct (map (\<lambda>x. the (M x)) names)"
    using ms assms(1) by (metis mset_eq_imp_distinct_iff)
  then have "inj_on (\<lambda>x. the (M x)) (set names)" by (simp add: distinct_map)
  with img have "bij_betw (\<lambda>x. the (M x)) (set names) (set names)"
    by (simp add: bij_betw_def)
  with dom ran ms show ?thesis by blast
qed

theorem find_assignment_bijective_witness:
  "distinct [''A'', ''B''] \<and>
   find_assignment [''A'', ''B''] [[0, 1], [1, 0]] default_max_tries (const_rng 0 0)
     = (Inr (Some [''A'' \<mapsto> ''B'', ''B'' \<mapsto> ''A'']), const_rng 0 1) \<and>
   dom [''A'' \<mapsto> ''B'', ''B'' \<mapsto> ''A''] = set [''A'', ''B''] \<and>
   ran [''A'' \<mapsto> ''B'', ''B'' \<mapsto> ''A''] = set [''A'', ''B''] \<and>
   bij_betw (\<lambda>x. the ([''A'' \<mapsto> ''B'', ''B'' \<mapsto> ''A''] x)) (set [''A'', ''B'']) (set [''A'', ''B'']) \<and>
   mset (map (\<lambda>x. the ([''A'' \<mapsto> ''B'', ''B'' \<mapsto> ''A''] x)) [''A'', ''B'']) = mset [''A'', ''B'']"
proof -
  have d: "distinct [''A'', ''B'']" by simp
  show ?thesis
    using find_assignment_bijective [OF d find_assignment_swap2_zero] d find_assignment_swap2_zero
    by blast
qed

lemma shuffle_pair:
  "shuffle [0, Suc 0] g =
     ((if fst (randbelow 2 g) = 0 then [Suc 0, 0] else [0, Suc 0]), g\<lparr>drawn := Suc (drawn g)\<rparr>)"
proof -
  obtain j where j: "fst (randbelow 2 g) = j" by simp
  have r: "randbelow (Suc (Suc 0)) g = (j, g\<lparr>drawn := Suc (drawn g)\<rparr>)"
    using j by (simp add: randbelow_def numeral_2_eq_2)
  have "j < 2" using randbelow_less [of 2 g] j by simp
  then have "j = 0 \<or> j = Suc 0" by arith
  then show ?thesis
    unfolding j by (auto simp: shuffle_def r)
qed

lemma find_loop_swap2:
  "fst (find_loop k [''A'', ''B''] [[0, 1], [1, 0]] [0, Suc 0] g) =
     (if \<exists>t. t < k \<and> fst (randbelow 2 (g\<lparr>drawn := drawn g + t\<rparr>)) = 0
      then Inr (Some [''A'' \<mapsto> ''B'', ''B'' \<mapsto> ''A'']) else Inr None)"
proof (induction k arbitrary: g)
  case 0
  then show ?case by simp
next
  case (Suc k)
  let ?g' = "g\<lparr>drawn := Suc (drawn g)\<rparr>"
  let ?P = "\<lambda>t. fst (randbelow 2 (g\<lparr>drawn := drawn g + t\<rparr>)) = 0"
  have ex: "(\<exists>t. t < Suc k \<and> ?P t) \<longleftrightarrow> ?P 0 \<or> (\<exists>t. t < k \<and> ?P (Suc t))"
    by (metis less_Suc_eq_0_disj)
  show ?case
  proof (cases "fst (randbelow 2 g) = 0")
    case True
    then have s: "shuffle [0, Suc 0] g = ([Suc 0, 0], ?g')" by (simp add: shuffle_pair)
    have "find_loop (Suc k) [''A'', ''B''] [[0, 1], [1, 0]] [0, Suc 0] g
        = (Inr (Some [''A'' \<mapsto> ''B'', ''B'' \<mapsto> ''A'']), ?g')"
      by (rule find_loop_accept [OF _ s]) (simp_all add: getitem_def)
    moreover have "?P 0" using True by simp
    ultimately show ?thesis using ex by simp
  next
    case False
    then have s: "shuffle [0, Suc 0] g = ([0, Suc 0], ?g')" by (simp add: shuffle_pair)
    have "find_loop (Suc k) [''A'', ''B''] [[0, 1], [1, 0]] [0, Suc 0] g
        = find_loop (Suc k - 1) [''A'', ''B''] [[0, 1], [1, 0]] [0, Suc 0] ?g'"
      by (rule find_loop_reject [OF _ s]) (simp_all add: getitem_def)
    moreover have "\<not> ?P 0" using False by simp
    ultimately show ?thesis using ex Suc.IH [of ?g'] by simp
  qed
qed

lemma find_loop_swap2_odd:
  "find_loop k [''A'', ''B''] [[0, 1], [1, 0]] [0, Suc 0] (const_rng 1 d)
     = (Inr None, const_rng 1 (d + k))"
proof (induction k arbitrary: d)
  case 0
  then show ?case by simp
next
  case (Suc k)
  have s: "shuffle [0, Suc 0] (const_rng 1 d) = ([0, Suc 0], const_rng 1 (Suc d))"
    by (simp add: shuffle_def randbelow_def const_rng_def)
  have "find_loop (Suc k) [''A'', ''B''] [[0, 1], [1, 0]] [0, Suc 0] (const_rng 1 d)
        = find_loop (Suc k - 1) [''A'', ''B''] [[0, 1], [1, 0]] [0, Suc 0] (const_rng 1 (Suc d))"
    by (rule find_loop_reject [OF _ s]) (simp_all add: getitem_def)
  then show ?case using Suc.IH [of "Suc d"] by simp
qed

text \<open>
  Claim C6 (names \<open>[A, B]\<close>, matrix \<open>[[0, 1], [1, 0]]\<close>, default budget) does not
  hold for every random sequence. A shuffle of two elements draws one number
  below 2 and swaps exactly when it is 0; on a tape whose every draw leaves the
  list in order, all 100000 tries are rejected and the result is \<^verbatim>\<open>None\<close>.
\<close>

theorem find_assignment_swap2_not_found:
  "find_assignment [''A'', ''B''] [[0, 1], [1, 0]] default_max_tries (const_rng 1 0)
     = (Inr None, const_rng 1 100000) \<and>
   fst (find_assignment [''A'', ''B''] [[0, 1], [1, 0]] default_max_tries (const_rng 1 0))
     \<noteq> Inr (Some [''A'' \<mapsto> ''B'', ''B'' \<mapsto> ''A''])"
  using find_loop_swap2_odd [of "nat default_max_tries" 0]
  by (simp add: find_assignment_def default_max_tries_def)

text \<open>
  Claim C6 as amended. For every random sequence the result is the mapping
  \<open>{A \<rightarrow> B, B \<rightarrow> A}\<close> if at least one of the first \<open>max_tries\<close> draws below 2
  is 0 (that shuffle swaps the two indices), and \<^verbatim>\<open>None\<close> otherwise; it is
  never an error nor any other mapping.
\<close>

theorem find_assignment_swap2:
  "fst (find_assignment [''A'', ''B''] [[0, 1], [1, 0]] default_max_tries g) =
     (if \<exists>t. t < nat default_max_tries \<and> fst (randbelow 2 (g\<lparr>drawn := drawn g + t\<rparr>)) = 0
      then Inr (Some [''A'' \<mapsto> ''B'', ''B'' \<mapsto> ''A'']) else Inr None)"
  using find_loop_swap2 [of "nat default_max_tries" g]
  by (simp add: find_assignment_def)

lemma perm3_derangement:
  assumes p: "mset perm = mset [0..<3]"
    and d: "\<And>i. i < 3 \<Longrightarrow> perm ! i \<noteq> i"
  shows "perm = [1, 2, 0] \<or> perm = [2, 0, 1]"
proof -
  note pf = perm_facts [OF p]
  from pf(1) obtain a b c where abc: "perm = [a, b, c]"
    by (cases perm; cases "tl perm"; cases "tl (tl perm)") auto
  from pf(3) abc have r: "a < 3" "b < 3" "c < 3" by auto
  from pf(2) abc have ne: "a \<noteq> b" "a \<noteq> c" "b \<noteq> c" by auto
  from d [of 0] d [of 1] d [of 2] abc have fx: "a \<noteq> 0" "b \<noteq> 1" "c \<noteq> 2" by auto
  from r ne fx have "(a = 1 \<and> b = 2 \<and> c = 0) \<or> (a = 2 \<and> b = 0 \<and> c = 1)" by arith
  with abc show ?thesis by simp
qed

lemma shuffle3_zero: "shuffle [0, Suc 0, Suc (Suc 0)] (const_rng 0 0) = ([1, 2, 0], const_rng 0 2)"
  by (simp add: shuffle_def randbelow_def const_rng_def)

lemma find_assignment_derangement3_zero:
  "find_assignment [''A'', ''B'', ''C''] [[0, 1, 1], [1, 0, 1], [1, 1, 0]] default_max_tries
       (const_rng 0 0)
     = (Inr (Some [''A'' \<mapsto> ''B'', ''B'' \<mapsto> ''C'', ''C'' \<mapsto> ''A'']), const_rng 0 2)"
proof -
  have "find_loop (nat default_max_tries) [''A'', ''B'', ''C'']
          [[0, 1, 1], [1, 0, 1], [1, 1, 0]] [0, Suc 0, Suc (Suc 0)] (const_rng 0 0)
     = (Inr (Some [''A'' \<mapsto> ''B'', ''B'' \<mapsto> ''C'', ''C'' \<mapsto> ''A'']), const_rng 0 2)"
    by (rule find_loop_accept [OF _ shuffle3_zero])
      (simp_all add: default_max_tries_def getitem_def upt_rec)
  then show ?thesis by (simp add: find_assignment_def upt_rec)
qed

text \<open>
  Claim C7 (derangements of three). For names \<open>[A, B, C]\<close> and the matrix that is
  1 off the diagonal and 0 on it, every mapping \<open>find_assignment\<close> returns, for
  any budget and any random sequence, is \<open>{A \<rightarrow> B, B \<rightarrow> C, C \<rightarrow> A}\<close> or
  \<open>{A \<rightarrow> C, B \<rightarrow> A, C \<rightarrow> B}\<close>.
\<close>

theorem find_assignment_derangement3:
  assumes "find_assignment [''A'', ''B'', ''C''] [[0, 1, 1], [1, 0, 1], [1, 1, 0]] max_tries g
             = (Inr (Some M), g')"
  shows "M = [''A'' \<mapsto> ''B'', ''B'' \<mapsto> ''C'', ''C'' \<mapsto> ''A''] \<or>
         M = [''A'' \<mapsto> ''C'', ''B'' \<mapsto> ''A'', ''C'' \<mapsto> ''B'']"
proof -
  let ?cm = "[[0, 1, 1], [1, 0, 1], [1, 1, 0::int]]"
  let ?names = "[''A'', ''B'', ''C'']"
  from find_assignment_Some [OF assms] obtain perm where
    p': "mset perm = mset [0..<length ?names]" and ok: "perm_ok ?cm 0 perm = Inr True"
    and dc': "dict_comp ?names perm [0..<length ?names] Map.empty = Inr M" by blast
  have l3: "length ?names = 3" by simp
  have p: "mset perm = mset [0..<3]" using p' unfolding l3 .
  have dc: "dict_comp ?names perm [0..<3] Map.empty = Inr M" using dc' unfolding l3 .
  have len: "length perm = 3" using perm_facts(1) [OF p] .
  have nf: "perm ! i \<noteq> i" if "i < 3" for i
  proof
    assume e: "perm ! i = i"
    from perm_ok_True [OF ok, of i] that len e have "?cm ! i ! i = 1" by simp
    moreover from that have "i = 0 \<or> i = 1 \<or> i = 2" by arith
    ultimately show False by auto
  qed
  have u: "[0..<3] = [0, 1, 2]" by (simp add: upt_rec)
  from perm3_derangement [OF p nf] show ?thesis
  proof
    assume "perm = [1, 2, 0]"
    with dc have "M = [''A'' \<mapsto> ''B'', ''B'' \<mapsto> ''C'', ''C'' \<mapsto> ''A'']"
      by (simp add: u getitem_def)
    then show ?thesis by simp
  next
    assume "perm = [2, 0, 1]"
    with dc have "M = [''A'' \<mapsto> ''C'', ''B'' \<mapsto> ''A'', ''C'' \<mapsto> ''B'']"
      by (simp add: u getitem_def)
    then show ?thesis by simp
  qed
qed

theorem find_assignment_derangement3_witness:
  "find_assignment [''A'', ''B'', ''C''] [[0, 1, 1], [1, 0, 1], [1, 1, 0]] default_max_tries
       (const_rng 0 0)
     = (Inr (Some [''A'' \<mapsto> ''B'', ''B'' \<mapsto> ''C'', ''C'' \<mapsto> ''A'']), const_rng 0 2) \<and>
   ([''A'' \<mapsto> ''B'', ''B'' \<mapsto> ''C'', ''C'' \<mapsto> ''A''] = [''A'' \<mapsto> ''B'', ''B'' \<mapsto> ''C'', ''C'' \<mapsto> ''A''] \<or>
    [''A'' \<mapsto> ''B'', ''B'' \<mapsto> ''C'', ''C'' \<mapsto> ''A''] = [''A'' \<mapsto> ''C'', ''B'' \<mapsto> ''A'', ''C'' \<mapsto> ''B''])"
  using find_assignment_derangement3 [OF find_assignment_derangement3_zero]
    find_assignment_derangement3_zero
  by blast

text \<open>The second derangement is returned as well, on a tape that starts 1, 0.\<close>

lemma shuffle3_other:
  "shuffle [0, Suc 0, Suc (Suc 0)] \<lparr>tape = (\<lambda>t. if t = 0 then 1 else 0), drawn = 0\<rparr>
     = ([2, 0, 1], \<lparr>tape = (\<lambda>t. if t = 0 then 1 else 0), drawn = 2\<rparr>)"
  by (simp add: shuffle_def randbelow_def)

lemma find_assignment_derangement3_other:
  "find_assignment [''A'', ''B'', ''C''] [[0, 1, 1], [1, 0, 1], [1, 1, 0]] default_max_tries
       \<lparr>tape = (\<lambda>t. if t = 0 then 1 else 0), drawn = 0\<rparr>
     = (Inr (Some [''A'' \<mapsto> ''C'', ''B'' \<mapsto> ''A'', ''C'' \<mapsto> ''B'']),
        \<lparr>tape = (\<lambda>t. if t = 0 then 1 else 0), drawn = 2\<rparr>)"
proof -
  have "find_loop (nat default_max_tries) [''A'', ''B'', ''C'']
          [[0, 1, 1], [1, 0, 1], [1, 1, 0]] [0, Suc 0, Suc (Suc 0)]
          \<lparr>tape = (\<lambda>t. if t = 0 then 1 else 0), drawn = 0\<rparr>
     = (Inr (Some [''A'' \<mapsto> ''C'', ''B'' \<mapsto> ''A'', ''C'' \<mapsto> ''B'']),
        \<lparr>tape = (\<lambda>t. if t = 0 then 1 else 0), drawn = 2\<rparr>)"
    by (rule find_loop_accept [OF _ shuffle3_other])
      (simp_all add: default_max_tries_def getitem_def upt_rec)
  then show ?thesis by (simp add: find_assignment_def upt_rec)
qed

subsection \<open>The password loop\<close>

lemma length_adjectifs: "length adjectifs = 22"
  by (simp add: adjectifs_def)

lemma length_noms: "length noms = 17"
  by (simp add: noms_def)

lemma choice_adjectifs:
  "choice adjectifs g = (Inr (adjectifs ! fst (randbelow 22 g)), g\<lparr>drawn := Suc (drawn g)\<rparr>)"
proof -
  have "adjectifs \<noteq> []" using length_adjectifs by auto
  then show ?thesis by (simp add: choice_def length_adjectifs randbelow_def)
qed

lemma choice_noms:
  "choice noms g = (Inr (noms ! fst (randbelow 17 g)), g\<lparr>drawn := Suc (drawn g)\<rparr>)"
proof -
  have "noms \<noteq> []" using length_noms by auto
  then show ?thesis by (simp add: choice_def length_noms randbelow_def)
qed

lemma candidate_eq:
  "candidate g =
     (Inr (adjectifs ! fst (randbelow 22 g) @ ''_'' @
           noms ! fst (randbelow 17 (g\<lparr>drawn := Suc (drawn g)\<rparr>))),
      g\<lparr>drawn := drawn g + 2\<rparr>)"
  by (simp add: candidate_def choice_adjectifs choice_noms)

lemma candidate_parts:
  "\<exists>a b. a \<in> set adjectifs \<and> b \<in> set noms \<and>
     candidate g = (Inr (a @ ''_'' @ b), g\<lparr>drawn := drawn g + 2\<rparr>)"
proof -
  have "fst (randbelow 22 g) < length adjectifs"
    using randbelow_less [of 22 g] by (simp add: length_adjectifs)
  then have a: "adjectifs ! fst (randbelow 22 g) \<in> set adjectifs" by (rule nth_mem)
  have "fst (randbelow 17 (g\<lparr>drawn := Suc (drawn g)\<rparr>)) < length noms"
    using randbelow_less [of 17] by (simp add: length_noms)
  then have b: "noms ! fst (randbelow 17 (g\<lparr>drawn := Suc (drawn g)\<rparr>)) \<in> set noms" by (rule nth_mem)
  from a b candidate_eq [of g] show ?thesis by blast
qed

lemma candidate_rng: "snd (candidate g) = g\<lparr>drawn := drawn g + 2\<rparr>"
  by (simp add: candidate_eq)

lemma candidate_nth0: "candidate g = (nth_candidate g 0, g\<lparr>drawn := drawn g + 2\<rparr>)"
  by (simp add: nth_candidate_def candidate_eq)

lemma nth_candidate_Suc:
  "nth_candidate (g\<lparr>drawn := drawn g + 2\<rparr>) j = nth_candidate g (Suc j)"
  by (simp add: nth_candidate_def)

lemma nth_candidate_Inr: "\<exists>c. nth_candidate g k = Inr c"
  by (simp add: nth_candidate_def candidate_eq)

lemma gen_loop_collide:
  "(\<And>j. j < k \<Longrightarrow> \<exists>c. nth_candidate g j = Inr c \<and> c \<in> existing)
     \<Longrightarrow> gen_loop k existing g = (Inr None, g\<lparr>drawn := drawn g + 2 * k\<rparr>)"
proof (induction k arbitrary: g)
  case 0
  then show ?case by simp
next
  case (Suc k)
  let ?g' = "g\<lparr>drawn := drawn g + 2\<rparr>"
  from Suc.prems [of 0] obtain c where c: "nth_candidate g 0 = Inr c" "c \<in> existing" by auto
  have "gen_loop k existing ?g' = (Inr None, ?g'\<lparr>drawn := drawn ?g' + 2 * k\<rparr>)"
  proof (rule Suc.IH)
    fix j assume "j < k"
    then have "Suc j < Suc k" by simp
    from Suc.prems [OF this] show "\<exists>c. nth_candidate ?g' j = Inr c \<and> c \<in> existing"
      by (simp only: nth_candidate_Suc)
  qed
  then show ?case using c by (simp add: candidate_nth0)
qed

lemma gen_loop_first:
  "k < n \<Longrightarrow> nth_candidate g k = Inr c \<Longrightarrow> c \<notin> existing
     \<Longrightarrow> (\<And>j. j < k \<Longrightarrow> \<exists>c'. nth_candidate g j = Inr c' \<and> c' \<in> existing)
     \<Longrightarrow> gen_loop n existing g = (Inr (Some c), g\<lparr>drawn := drawn g + 2 * (k + 1)\<rparr>)"
proof (induction n arbitrary: g k)
  case 0
  then show ?case by simp
next
  case (Suc n)
  let ?g' = "g\<lparr>drawn := drawn g + 2\<rparr>"
  show ?case
  proof (cases k)
    case 0
    with Suc.prems(2,3) show ?thesis by (simp add: candidate_nth0)
  next
    case (Suc k')
    from Suc.prems(4) [of 0] Suc obtain c0 where c0: "nth_candidate g 0 = Inr c0" "c0 \<in> existing"
      by auto
    have "gen_loop n existing ?g' = (Inr (Some c), ?g'\<lparr>drawn := drawn ?g' + 2 * (k' + 1)\<rparr>)"
    proof (rule Suc.IH)
      show "k' < n" using Suc.prems(1) Suc by simp
      show "nth_candidate ?g' k' = Inr c" using Suc.prems(2) unfolding Suc nth_candidate_Suc .
      show "c \<notin> existing" by fact
      fix j assume "j < k'"
      then have "Suc j < k" using Suc by simp
      from Suc.prems(4) [OF this] show "\<exists>c'. nth_candidate ?g' j = Inr c' \<and> c' \<in> existing"
        by (simp only: nth_candidate_Suc)
    qed
    then show ?thesis using c0 Suc by (simp add: candidate_nth0)
  qed
qed

lemma nth_candidate_const0: "nth_candidate (const_rng 0 d) k = Inr ''joyeux_sapin''"
  by (simp add: nth_candidate_def candidate_eq randbelow_def const_rng_def adjectifs_def noms_def)

lemma nth_candidate_list0: "nth_candidate (list_rng [0, 0, 1, 1]) 0 = Inr ''joyeux_sapin''"
  by (simp add: nth_candidate_def candidate_eq randbelow_def list_rng_def adjectifs_def noms_def)

lemma nth_candidate_list1: "nth_candidate (list_rng [0, 0, 1, 1]) 1 = Inr ''blanc_renne''"
  by (simp add: nth_candidate_def candidate_eq randbelow_def list_rng_def adjectifs_def noms_def)

subsection \<open>Claims about \<^verbatim>\<open>gen_password_christmas\<close>\<close>

text \<open>
  Claim C8 (freshness on the loop path). If the candidate of iteration \<open>k < 100\<close>
  is the first one that is not in \<open>existing\<close>, the loop returns at that iteration:
  the function returns exactly this candidate, which is not in \<open>existing\<close>,
  after the \<open>2 (k + 1)\<close> draws of the \<open>k + 1\<close> candidates formed.
\<close>

theorem gen_password_christmas_fresh:
  assumes "k < 100" and "nth_candidate g k = Inr c" and "c \<notin> existing"
    and "\<forall>j<k. \<exists>c'. nth_candidate g j = Inr c' \<and> c' \<in> existing"
  shows "gen_loop 100 existing g = (Inr (Some c), g\<lparr>drawn := drawn g + 2 * (k + 1)\<rparr>) \<and>
         gen_password_christmas (Some existing) g = (Inr c, g\<lparr>drawn := drawn g + 2 * (k + 1)\<rparr>) \<and>
         c \<notin> existing"
proof -
  have "gen_loop 100 existing g = (Inr (Some c), g\<lparr>drawn := drawn g + 2 * (k + 1)\<rparr>)"
    using assms by (intro gen_loop_first) auto
  with assms(3) show ?thesis by (simp add: gen_password_christmas_def)
qed

theorem gen_password_christmas_fresh_witness:
  "(1::nat) < 100 \<and>
   nth_candidate (list_rng [0, 0, 1, 1]) 0 = Inr ''joyeux_sapin'' \<and>
   ''joyeux_sapin'' \<in> {''joyeux_sapin''} \<and>
   nth_candidate (list_rng [0, 0, 1, 1]) 1 = Inr ''blanc_renne'' \<and>
   ''blanc_renne'' \<notin> {''joyeux_sapin''} \<and>
   gen_loop 100 {''joyeux_sapin''} (list_rng [0, 0, 1, 1])
     = (Inr (Some ''blanc_renne''), (list_rng [0, 0, 1, 1])\<lparr>drawn := 4\<rparr>) \<and>
   gen_password_christmas (Some {''joyeux_sapin''}) (list_rng [0, 0, 1, 1])
     = (Inr ''blanc_renne'', (list_rng [0, 0, 1, 1])\<lparr>drawn := 4\<rparr>)"
proof -
  have k: "(1::nat) < 100" by simp
  have f: "''blanc_renne'' \<notin> {''joyeux_sapin''}" by simp
  have c: "\<forall>j<1. \<exists>c'. nth_candidate (list_rng [0, 0, 1, 1]) j = Inr c' \<and> c' \<in> {''joyeux_sapin''}"
    using nth_candidate_list0 by simp
  have d: "drawn (list_rng [0, 0, 1, 1]) + 2 * (1 + 1) = 4" by (simp add: list_rng_def)
  show ?thesis
    using gen_password_christmas_fresh [OF k nth_candidate_list1 f c]
      nth_candidate_list0 nth_candidate_list1 unfolding d by simp
qed

lemma randint_10_99:
  "randint 10 99 g = (10 + fst (randbelow 90 g), g\<lparr>drawn := Suc (drawn g)\<rparr>)"
  by (simp add: randint_def randbelow_def)

lemma str_nat_two_digits:
  assumes "10 \<le> r" and "r \<le> 99"
  shows "str_nat r = [digit_char (r div 10), digit_char (r mod 10)]"
proof -
  have "str_nat r = str_nat (r div 10) @ [digit_char (r mod 10)]"
    using assms(1) by (subst str_nat.simps) simp
  moreover have "r div 10 < 10" using assms(2) by simp
  then have "str_nat (r div 10) = [digit_char (r div 10)]"
    by (subst str_nat.simps) simp
  ultimately show ?thesis by simp
qed

lemma fallback_parts:
  "\<exists>a b r. a \<in> set adjectifs \<and> b \<in> set noms \<and> 10 \<le> r \<and> r \<le> 99 \<and> length (str_nat r) = 2 \<and>
     candidate g = (Inr (a @ ''_'' @ b), g\<lparr>drawn := drawn g + 2\<rparr>) \<and>
     randint 10 99 (g\<lparr>drawn := drawn g + 2\<rparr>) = (r, g\<lparr>drawn := drawn g + 3\<rparr>) \<and>
     fallback g = (Inr (a @ ''_'' @ b @ ''_'' @ str_nat r), g\<lparr>drawn := drawn g + 3\<rparr>)"
proof -
  from candidate_parts [of g] obtain a b where ab: "a \<in> set adjectifs" "b \<in> set noms"
    and c: "candidate g = (Inr (a @ ''_'' @ b), g\<lparr>drawn := drawn g + 2\<rparr>)" by blast
  let ?g2 = "g\<lparr>drawn := drawn g + 2\<rparr>"
  let ?r = "10 + fst (randbelow 90 ?g2)"
  have "fst (randbelow 90 ?g2) < 90" by (rule randbelow_less) simp
  then have r: "10 \<le> ?r" "?r \<le> 99" by simp_all
  have l: "length (str_nat ?r) = 2" using str_nat_two_digits [OF r] by simp
  have ri: "randint 10 99 ?g2 = (?r, g\<lparr>drawn := drawn g + 3\<rparr>)"
    by (simp add: randint_10_99)
  have "fallback g = (Inr (a @ ''_'' @ b @ ''_'' @ str_nat ?r), g\<lparr>drawn := drawn g + 3\<rparr>)"
    unfolding fallback_def c using ri by simp
  with ab r l c ri show ?thesis by blast
qed

lemma gen_password_christmas_collide:
  assumes "\<forall>k<100. \<exists>c. nth_candidate g k = Inr c \<and> c \<in> existing"
  shows "gen_loop 100 existing g = (Inr None, g\<lparr>drawn := drawn g + 200\<rparr>)"
    and "gen_password_christmas (Some existing) g = fallback (g\<lparr>drawn := drawn g + 200\<rparr>)"
proof -
  show l: "gen_loop 100 existing g = (Inr None, g\<lparr>drawn := drawn g + 200\<rparr>)"
    using gen_loop_collide [of 100 g existing] assms by simp
  show "gen_password_christmas (Some existing) g = fallback (g\<lparr>drawn := drawn g + 200\<rparr>)"
    by (simp add: gen_password_christmas_def l)
qed

lemma gen_password_christmas_cases:
  "(\<exists>k c. k < 100 \<and> gen_password_christmas (Some existing) g
              = (Inr c, g\<lparr>drawn := drawn g + 2 * (k + 1)\<rparr>)) \<or>
   gen_password_christmas (Some existing) g = fallback (g\<lparr>drawn := drawn g + 200\<rparr>)"
proof (cases "\<forall>k<100. \<exists>c. nth_candidate g k = Inr c \<and> c \<in> existing")
  case True
  then show ?thesis using gen_password_christmas_collide(2) by blast
next
  case False
  let ?P = "\<lambda>k. k < 100 \<and> (\<exists>c. nth_candidate g k = Inr c \<and> c \<notin> existing)"
  from False nth_candidate_Inr [of g] have "\<exists>k. ?P k" by metis
  then have P: "?P (LEAST k. ?P k)" by (rule LeastI_ex)
  let ?k = "LEAST k. ?P k"
  from P obtain c where k: "?k < 100" and c: "nth_candidate g ?k = Inr c" "c \<notin> existing" by blast
  have before: "\<exists>c'. nth_candidate g j = Inr c' \<and> c' \<in> existing" if "j < ?k" for j
  proof -
    from that have "\<not> ?P j" by (rule not_less_Least)
    moreover from that k have "j < 100" by simp
    ultimately show ?thesis using nth_candidate_Inr [of g j] by auto
  qed
  have "gen_loop 100 existing g = (Inr (Some c), g\<lparr>drawn := drawn g + 2 * (?k + 1)\<rparr>)"
    using k c before by (intro gen_loop_first) auto
  then have "gen_password_christmas (Some existing) g
      = (Inr c, g\<lparr>drawn := drawn g + 2 * (?k + 1)\<rparr>)"
    by (simp add: gen_password_christmas_def)
  with k show ?thesis by blast
qed

lemma gen_password_christmas_None:
  "gen_password_christmas None g = gen_password_christmas (Some {}) g"
  by (simp add: gen_password_christmas_def)

lemma gen_password_christmas_returns:
  "\<exists>s n. gen_password_christmas existing_set g = (Inr s, g\<lparr>drawn := drawn g + n\<rparr>) \<and>
     ((\<exists>k. 1 \<le> k \<and> k \<le> 100 \<and> n = 2 * k) \<or> n = 2 * 100 + 3)"
proof -
  obtain existing where e: "gen_password_christmas existing_set g
      = gen_password_christmas (Some existing) g"
    by (cases existing_set) (auto simp: gen_password_christmas_None)
  from gen_password_christmas_cases [of existing g] show ?thesis
  proof
    assume "\<exists>k c. k < 100 \<and> gen_password_christmas (Some existing) g
              = (Inr c, g\<lparr>drawn := drawn g + 2 * (k + 1)\<rparr>)"
    then obtain k c where k: "k < 100"
      and r: "gen_password_christmas (Some existing) g = (Inr c, g\<lparr>drawn := drawn g + 2 * (k + 1)\<rparr>)"
      by blast
    from k have "1 \<le> k + 1 \<and> k + 1 \<le> 100 \<and> 2 * (k + 1) = 2 * (k + 1)" by simp
    with r e show ?thesis by metis
  next
    assume f: "gen_password_christmas (Some existing) g = fallback (g\<lparr>drawn := drawn g + 200\<rparr>)"
    from fallback_parts [of "g\<lparr>drawn := drawn g + 200\<rparr>"] obtain s where
      "fallback (g\<lparr>drawn := drawn g + 200\<rparr>) = (Inr s, g\<lparr>drawn := drawn g + (2 * 100 + 3)\<rparr>)"
      by auto
    with f e show ?thesis by metis
  qed
qed

text \<open>
  Claim C9 (the fallback). If all 100 loop candidates are in \<open>existing\<close>, the
  result is \<open>a_b_NN\<close> for an adjective \<open>a\<close> and a noun \<open>b\<close> drawn anew after the
  loop and the two-character rendering \<open>NN\<close> of a number drawn by
  \<^verbatim>\<open>randint(10, 99)\<close>; it is returned without a membership test, and there
  are a set and a random sequence for which the returned token is in the set.
\<close>

theorem gen_password_christmas_fallback:
  "((\<forall>k<100. \<exists>c. nth_candidate g k = Inr c \<and> c \<in> existing) \<longrightarrow>
      (\<exists>a b r. a \<in> set adjectifs \<and> b \<in> set noms \<and> 10 \<le> r \<and> r \<le> 99 \<and>
         length (str_nat r) = 2 \<and>
         gen_loop 100 existing g = (Inr None, g\<lparr>drawn := drawn g + 200\<rparr>) \<and>
         candidate (g\<lparr>drawn := drawn g + 200\<rparr>)
           = (Inr (a @ ''_'' @ b), g\<lparr>drawn := drawn g + 202\<rparr>) \<and>
         randint 10 99 (g\<lparr>drawn := drawn g + 202\<rparr>) = (r, g\<lparr>drawn := drawn g + 203\<rparr>) \<and>
         gen_password_christmas (Some existing) g
           = (Inr (a @ ''_'' @ b @ ''_'' @ str_nat r), g\<lparr>drawn := drawn g + 203\<rparr>))) \<and>
   (\<exists>existing' g' s. (\<forall>k<100. \<exists>c. nth_candidate g' k = Inr c \<and> c \<in> existing') \<and>
      fst (gen_password_christmas (Some existing') g') = Inr s \<and> s \<in> existing')"
proof (rule conjI)
  show "(\<forall>k<100. \<exists>c. nth_candidate g k = Inr c \<and> c \<in> existing) \<longrightarrow>
      (\<exists>a b r. a \<in> set adjectifs \<and> b \<in> set noms \<and> 10 \<le> r \<and> r \<le> 99 \<and>
         length (str_nat r) = 2 \<and>
         gen_loop 100 existing g = (Inr None, g\<lparr>drawn := drawn g + 200\<rparr>) \<and>
         candidate (g\<lparr>drawn := drawn g + 200\<rparr>)
           = (Inr (a @ ''_'' @ b), g\<lparr>drawn := drawn g + 202\<rparr>) \<and>
         randint 10 99 (g\<lparr>drawn := drawn g + 202\<rparr>) = (r, g\<lparr>drawn := drawn g + 203\<rparr>) \<and>
         gen_password_christmas (Some existing) g
           = (Inr (a @ ''_'' @ b @ ''_'' @ str_nat r), g\<lparr>drawn := drawn g + 203\<rparr>))"
  proof
    assume h: "\<forall>k<100. \<exists>c. nth_candidate g k = Inr c \<and> c \<in> existing"
    note col = gen_password_christmas_collide [OF h]
    have "\<exists>a b r. a \<in> set adjectifs \<and> b \<in> set noms \<and> 10 \<le> r \<and> r \<le> 99 \<and>
        length (str_nat r) = 2 \<and>
        candidate (g\<lparr>drawn := drawn g + 200\<rparr>)
          = (Inr (a @ ''_'' @ b), g\<lparr>drawn := drawn g + 202\<rparr>) \<and>
        randint 10 99 (g\<lparr>drawn := drawn g + 202\<rparr>) = (r, g\<lparr>drawn := drawn g + 203\<rparr>) \<and>
        fallback (g\<lparr>drawn := drawn g + 200\<rparr>)
          = (Inr (a @ ''_'' @ b @ ''_'' @ str_nat r), g\<lparr>drawn := drawn g + 203\<rparr>)"
    proof -
      have e2: "drawn (g\<lparr>drawn := drawn g + 200\<rparr>) + 2 = drawn g + 202" by simp
      have e3: "drawn (g\<lparr>drawn := drawn g + 200\<rparr>) + 3 = drawn g + 203" by simp
      have u: "g\<lparr>drawn := drawn g + 200, drawn := d\<rparr> = g\<lparr>drawn := d\<rparr>" for d by simp
      show ?thesis
        using fallback_parts [of "g\<lparr>drawn := drawn g + 200\<rparr>"] unfolding e2 e3 u .
    qed
    then obtain a b r where
      "a \<in> set adjectifs" "b \<in> set noms" "10 \<le> r" "r \<le> 99" "length (str_nat r) = 2"
      "candidate (g\<lparr>drawn := drawn g + 200\<rparr>) = (Inr (a @ ''_'' @ b), g\<lparr>drawn := drawn g + 202\<rparr>)"
      "randint 10 99 (g\<lparr>drawn := drawn g + 202\<rparr>) = (r, g\<lparr>drawn := drawn g + 203\<rparr>)"
      "fallback (g\<lparr>drawn := drawn g + 200\<rparr>)
         = (Inr (a @ ''_'' @ b @ ''_'' @ str_nat r), g\<lparr>drawn := drawn g + 203\<rparr>)"
      by blast
    with col show "\<exists>a b r. a \<in> set adjectifs \<and> b \<in> set noms \<and> 10 \<le> r \<and> r \<le> 99 \<and>
         length (str_nat r) = 2 \<and>
         gen_loop 100 existing g = (Inr None, g\<lparr>drawn := drawn g + 200\<rparr>) \<and>
         candidate (g\<lparr>drawn := drawn g + 200\<rparr>)
           = (Inr (a @ ''_'' @ b), g\<lparr>drawn := drawn g + 202\<rparr>) \<and>
         randint 10 99 (g\<lparr>drawn := drawn g + 202\<rparr>) = (r, g\<lparr>drawn := drawn g + 203\<rparr>) \<and>
         gen_password_christmas (Some existing) g
           = (Inr (a @ ''_'' @ b @ ''_'' @ str_nat r), g\<lparr>drawn := drawn g + 203\<rparr>)"
      by (metis (no_types, lifting))
  qed
next
  let ?ex = "{''joyeux_sapin'', ''joyeux_sapin_10''}"
  let ?g = "const_rng 0 0"
  have h: "\<forall>k<100. \<exists>c. nth_candidate ?g k = Inr c \<and> c \<in> ?ex"
    by (simp add: nth_candidate_const0)
  have "gen_password_christmas (Some ?ex) ?g = fallback (?g\<lparr>drawn := drawn ?g + 200\<rparr>)"
    by (rule gen_password_christmas_collide(2) [OF h])
  also have "\<dots> = (Inr ''joyeux_sapin_10'', const_rng 0 203)"
    by (simp add: fallback_def candidate_eq randint_10_99 randbelow_def const_rng_def
        adjectifs_def noms_def str_nat_two_digits digit_char_def)
  finally have "fst (gen_password_christmas (Some ?ex) ?g) = Inr ''joyeux_sapin_10''" by simp
  with h show "\<exists>existing' g' s. (\<forall>k<100. \<exists>c. nth_candidate g' k = Inr c \<and> c \<in> existing') \<and>
      fst (gen_password_christmas (Some existing') g') = Inr s \<and> s \<in> existing'"
    by (intro exI [of _ ?ex] exI [of _ ?g] exI [of _ "''joyeux_sapin_10''"]) simp
qed

theorem gen_password_christmas_fallback_witness:
  "\<not> (\<exists>k. k < 100 \<and> nth_candidate (const_rng 0 0) k \<noteq> Inr ''joyeux_sapin'') \<and>
   ''joyeux_sapin'' \<in> {''joyeux_sapin'', ''joyeux_sapin_10''} \<and>
   (\<exists>a b r. a \<in> set adjectifs \<and> b \<in> set noms \<and> 10 \<le> r \<and> r \<le> 99 \<and>
      length (str_nat r) = 2 \<and>
      gen_loop 100 {''joyeux_sapin'', ''joyeux_sapin_10''} (const_rng 0 0)
        = (Inr None, (const_rng 0 0)\<lparr>drawn := drawn (const_rng 0 0) + 200\<rparr>) \<and>
      candidate ((const_rng 0 0)\<lparr>drawn := drawn (const_rng 0 0) + 200\<rparr>)
        = (Inr (a @ ''_'' @ b), (const_rng 0 0)\<lparr>drawn := drawn (const_rng 0 0) + 202\<rparr>) \<and>
      randint 10 99 ((const_rng 0 0)\<lparr>drawn := drawn (const_rng 0 0) + 202\<rparr>)
        = (r, (const_rng 0 0)\<lparr>drawn := drawn (const_rng 0 0) + 203\<rparr>) \<and>
      gen_password_christmas (Some {''joyeux_sapin'', ''joyeux_sapin_10''}) (const_rng 0 0)
        = (Inr (a @ ''_'' @ b @ ''_'' @ str_nat r),
           (const_rng 0 0)\<lparr>drawn := drawn (const_rng 0 0) + 203\<rparr>))"
proof -
  have h: "\<forall>k<100. \<exists>c. nth_candidate (const_rng 0 0) k = Inr c \<and>
      c \<in> {''joyeux_sapin'', ''joyeux_sapin_10''}"
    by (simp add: nth_candidate_const0)
  have n: "\<not> (\<exists>k. k < 100 \<and> nth_candidate (const_rng 0 0) k \<noteq> Inr ''joyeux_sapin'')"
    by (simp add: nth_candidate_const0)
  have m: "''joyeux_sapin'' \<in> {''joyeux_sapin'', ''joyeux_sapin_10''}" by simp
  from gen_password_christmas_fallback
    [of "const_rng 0 0" "{''joyeux_sapin'', ''joyeux_sapin_10''}", THEN conjunct1, THEN mp, OF h]
    n m
  show ?thesis by (intro conjI)
qed

text \<open>
  Claim C10 (totality). For every argument, \<^verbatim>\<open>None\<close> included, and every random
  sequence the function returns a string and raises nothing. It consumes either
  the draws of \<open>k\<close> loop candidates for some \<open>1 \<le> k \<le> 100\<close> (two draws each), or
  those of all 100 loop candidates and the three draws of the one fallback
  token. \<^verbatim>\<open>None\<close> behaves as the empty set, and on the set of all
  adjective/noun combinations the result is the fallback token formed after the
  100 candidates.
\<close>

theorem gen_password_christmas_total:
  "(\<exists>s n. gen_password_christmas existing_set g = (Inr s, g\<lparr>drawn := drawn g + n\<rparr>) \<and>
      ((\<exists>k. 1 \<le> k \<and> k \<le> 100 \<and> n = 2 * k) \<or> n = 2 * 100 + 3)) \<and>
   gen_password_christmas None g = gen_password_christmas (Some {}) g \<and>
   gen_password_christmas
       (Some ((\<lambda>(a, b). a @ ''_'' @ b) ` (set adjectifs \<times> set noms))) g
     = fallback (g\<lparr>drawn := drawn g + 200\<rparr>)"
proof -
  let ?all = "(\<lambda>(a, b). a @ ''_'' @ b) ` (set adjectifs \<times> set noms)"
  have "\<exists>c. nth_candidate g k = Inr c \<and> c \<in> ?all" for k
  proof -
    from candidate_parts [of "g\<lparr>drawn := drawn g + 2 * k\<rparr>"] obtain a b where
      "a \<in> set adjectifs" "b \<in> set noms" "nth_candidate g k = Inr (a @ ''_'' @ b)"
      by (auto simp: nth_candidate_def)
    then show ?thesis by force
  qed
  then have "gen_password_christmas (Some ?all) g = fallback (g\<lparr>drawn := drawn g + 200\<rparr>)"
    by (intro gen_password_christmas_collide(2)) blast
  with gen_password_christmas_returns [of existing_set g] gen_password_christmas_None [of g]
  show ?thesis by blast
qed

subsection \<open>Failure modes and the zero-row check\<close>

lemma perm_ok_defined:
  "(\<And>t. t < length js \<Longrightarrow> i + t < length cm \<and> js ! t < length (cm ! (i + t)))
     \<Longrightarrow> \<exists>b. perm_ok cm i js = Inr b"
proof (induction js arbitrary: i)
  case Nil
  then show ?case by auto
next
  case (Cons j js)
  from Cons.prems [of 0] have a: "i < length cm" "j < length (cm ! i)" by simp_all
  have "\<exists>b. perm_ok cm (Suc i) js = Inr b"
  proof (rule Cons.IH)
    fix t assume "t < length js"
    then have "Suc t < length (j # js)" by simp
    from Cons.prems [OF this] show "Suc i + t < length cm \<and> js ! t < length (cm ! (Suc i + t))"
      by simp
  qed
  with a show ?case by (auto simp: getitem_def)
qed

lemma perm_ok_False:
  "(\<And>t. t < length js \<Longrightarrow> i + t < length cm \<and> js ! t < length (cm ! (i + t)))
     \<Longrightarrow> t < length js \<Longrightarrow> cm ! (i + t) ! (js ! t) \<noteq> 1
     \<Longrightarrow> perm_ok cm i js = Inr False"
proof (induction js arbitrary: i t)
  case Nil
  then show ?case by simp
next
  case (Cons j js)
  from Cons.prems(1) [of 0] have a: "i < length cm" "j < length (cm ! i)" by simp_all
  show ?case
  proof (cases "cm ! i ! j = 1")
    case False
    with a show ?thesis by (simp add: getitem_def)
  next
    case True
    with Cons.prems(3) obtain t' where t: "t = Suc t'" by (cases t) auto
    have "perm_ok cm (Suc i) js = Inr False"
    proof (rule Cons.IH)
      fix u assume "u < length js"
      then have "Suc u < length (j # js)" by simp
      from Cons.prems(1) [OF this] show "Suc i + u < length cm \<and> js ! u < length (cm ! (Suc i + u))"
        by simp
    next
      show "t' < length js" using Cons.prems(2) t by simp
      show "cm ! (Suc i + t') ! (js ! t') \<noteq> 1" using Cons.prems(3) t by simp
    qed
    with a True show ?thesis by (simp add: getitem_def)
  qed
qed

lemma dict_comp_defined:
  "set is \<subseteq> {..<length names} \<Longrightarrow> length perm = length names
     \<Longrightarrow> set perm \<subseteq> {..<length names} \<Longrightarrow> \<exists>M. dict_comp names perm is m = Inr M"
proof (induction "is" arbitrary: m)
  case Nil
  then show ?case by simp
next
  case (Cons a rest)
  from Cons.prems have a: "a < length names" "a < length perm" by simp_all
  with Cons.prems(3) have p: "perm ! a < length names" using nth_mem by blast
  from Cons.prems have "\<exists>M. dict_comp names perm rest (m(names ! a \<mapsto> names ! (perm ! a))) = Inr M"
    by (intro Cons.IH) simp_all
  with a p show ?case by (simp add: getitem_def)
qed

lemma shuffle_upt:
  assumes "shuffle [0..<n] g = (perm, g')"
  shows "length perm = n" and "set perm = {0..<n}" and "g' = g\<lparr>drawn := drawn g + (n - 1)\<rparr>"
proof -
  have "mset perm = mset [0..<n]" using shuffle_mset [of "[0..<n]" g] assms by simp
  from perm_facts [OF this] show "length perm = n" and "set perm = {0..<n}" by simp_all
  show "g' = g\<lparr>drawn := drawn g + (n - 1)\<rparr>" using shuffle_rng [of "[0..<n]" g] assms by simp
qed

lemma perm_in_shape:
  assumes "length names \<le> length cm"
    and "\<And>i. i < length names \<Longrightarrow> length names \<le> length (cm ! i)"
    and "length perm = length names" and "set perm = {0..<length names}"
    and "t < length perm"
  shows "0 + t < length cm \<and> perm ! t < length (cm ! (0 + t))"
proof -
  from assms(3,5) have t: "t < length names" by simp
  from assms(4,5) have "perm ! t < length names" using nth_mem by fastforce
  with assms(1) assms(2) [OF t] t show ?thesis by simp
qed

lemma find_loop_defined:
  assumes "length names \<le> length cm"
    and "\<And>i. i < length names \<Longrightarrow> length names \<le> length (cm ! i)"
  shows "\<exists>r g'. find_loop k names cm [0..<length names] g = (Inr r, g')"
proof (induction k arbitrary: g)
  case 0
  then show ?case by simp
next
  case (Suc k)
  obtain perm g1 where s: "shuffle [0..<length names] g = (perm, g1)"
    by (cases "shuffle [0..<length names] g")
  note sf = shuffle_upt [OF s]
  have "\<exists>b. perm_ok cm 0 perm = Inr b"
    by (rule perm_ok_defined) (rule perm_in_shape [OF assms sf(1,2)])
  then obtain b where b: "perm_ok cm 0 perm = Inr b" ..
  show ?case
  proof (cases b)
    case True
    have "\<exists>M. dict_comp names perm [0..<length names] Map.empty = Inr M"
      using sf(1,2) by (intro dict_comp_defined) auto
    then obtain M where "dict_comp names perm [0..<length names] Map.empty = Inr M" ..
    with s b True show ?thesis by simp
  next
    case False
    with s b Suc.IH [of g1] show ?thesis by simp
  qed
qed

lemma find_loop_zero_row:
  assumes "length names \<le> length cm"
    and "\<And>i. i < length names \<Longrightarrow> length names \<le> length (cm ! i)"
    and "i < length names" and "\<And>j. j < length names \<Longrightarrow> cm ! i ! j \<noteq> 1"
  shows "find_loop k names cm [0..<length names] g
           = (Inr None, g\<lparr>drawn := drawn g + k * (length names - 1)\<rparr>)"
proof (induction k arbitrary: g)
  case 0
  then show ?case by simp
next
  case (Suc k)
  obtain perm g1 where s: "shuffle [0..<length names] g = (perm, g1)"
    by (cases "shuffle [0..<length names] g")
  note sf = shuffle_upt [OF s]
  have i: "i < length perm" using assms(3) sf(1) by simp
  then have "perm ! i < length names" using sf(2) nth_mem by fastforce
  then have "cm ! (0 + i) ! (perm ! i) \<noteq> 1" using assms(4) by simp
  then have "perm_ok cm 0 perm = Inr False"
    by (intro perm_ok_False [OF perm_in_shape [OF assms(1,2) sf(1,2)] i])
  with s have "find_loop (Suc k) names cm [0..<length names] g
                 = find_loop k names cm [0..<length names] g1" by simp
  then show ?case using Suc.IH [of g1] sf(3) by simp
qed

lemma find_assignment_defined:
  assumes "length names \<le> length cm"
    and "\<forall>i<length names. length names \<le> length (cm ! i)"
  shows "\<exists>r g'. find_assignment names cm max_tries g = (Inr r, g')"
proof (cases "length names = 0")
  case True
  then show ?thesis by (simp add: find_assignment_def)
next
  case False
  from find_loop_defined [of names cm "nat max_tries" g] assms
  have "\<exists>r g'. find_loop (nat max_tries) names cm [0..<length names] g = (Inr r, g')" by blast
  with False show ?thesis by (simp add: find_assignment_def)
qed

text \<open>
  Claim C4 (no other failure) does not hold for \<open>find_assignment\<close>: the function
  checks neither the number of rows nor their lengths, and on two names with
  rows of length one the first try already raises IndexError at
  \<^verbatim>\<open>compat_matrix[i][j]\<close>.
\<close>

theorem find_assignment_short_rows_raise:
  "find_assignment [''A'', ''B''] [[1], [1]] default_max_tries (const_rng 0 0)
     = (Inl IndexError, const_rng 0 1)"
proof -
  have "find_loop (nat default_max_tries) [''A'', ''B''] [[1], [1]] [0, Suc 0] (const_rng 0 0)
     = (Inl IndexError, const_rng 0 1)"
    by (rule find_loop_raise [OF _ shuffle2_zero])
      (simp_all add: default_max_tries_def getitem_def)
  then show ?thesis by (simp add: find_assignment_def)
qed

text \<open>
  Claim C4 as amended. If the matrix has at least \<open>n\<close> rows and each of its first
  \<open>n\<close> rows has at least \<open>n\<close> entries (as every \<open>n \<times> n\<close> matrix has),
  \<open>find_assignment\<close> raises nothing: it returns a mapping or \<^verbatim>\<open>None\<close>, for every
  budget and random sequence. \<open>gen_password_christmas\<close> raises nothing on any
  input and returns a string.
\<close>

theorem core_no_other_failure:
  "(length names \<le> length compat_matrix \<and>
      (\<forall>i<length names. length names \<le> length (compat_matrix ! i)) \<longrightarrow>
      (\<exists>r g'. find_assignment names compat_matrix max_tries g = (Inr r, g'))) \<and>
   (\<exists>s g'. gen_password_christmas existing_set g = (Inr s, g'))"
proof (rule conjI)
  show "length names \<le> length compat_matrix \<and>
      (\<forall>i<length names. length names \<le> length (compat_matrix ! i)) \<longrightarrow>
      (\<exists>r g'. find_assignment names compat_matrix max_tries g = (Inr r, g'))"
    using find_assignment_defined [of names compat_matrix max_tries g] by blast
  show "\<exists>s g'. gen_password_christmas existing_set g = (Inr s, g')"
    using gen_password_christmas_returns [of existing_set g] by blast
qed

theorem core_no_other_failure_witness:
  "length [''A'', ''B''] \<le> length [[0, 1], [1, 0::int]] \<and>
   length [''A'', ''B''] \<le> length ([[0, 1], [1, 0::int]] ! 0) \<and>
   length [''A'', ''B''] \<le> length ([[0, 1], [1, 0::int]] ! 1) \<and>
   (\<exists>r g'. find_assignment [''A'', ''B''] [[0, 1], [1, 0]] default_max_tries (const_rng 0 0)
      = (Inr r, g')) \<and>
   (\<exists>s g'. gen_password_christmas None (const_rng 0 0) = (Inr s, g'))"
proof -
  have h: "length [''A'', ''B''] \<le> length [[0, 1], [1, 0::int]] \<and>
      (\<forall>i<length [''A'', ''B'']. length [''A'', ''B''] \<le> length ([[0, 1], [1, 0::int]] ! i))"
    by (simp add: less_Suc_eq)
  note t = core_no_other_failure
    [of "[''A'', ''B'']" "[[0, 1], [1, 0]]" default_max_tries "const_rng 0 0" None]
  from t [THEN conjunct1, THEN mp, OF h] t [THEN conjunct2] show ?thesis by simp
qed

lemma first_empty_row_append:
  "(\<And>j. j \<in> set pre \<Longrightarrow> sum_list (cm ! j) \<noteq> 0)
     \<Longrightarrow> first_empty_row names cm (pre @ rest) = first_empty_row names cm rest"
  by (induction pre) simp_all

lemma first_empty_row_upt:
  assumes "k < n" and "sum_list (cm ! k) = 0" and "\<And>j. j < k \<Longrightarrow> sum_list (cm ! j) \<noteq> 0"
  shows "first_empty_row names cm [0..<n] = Some (names ! k)"
proof -
  have "[0..<n] = [0..<k] @ [k..<n]"
    using assms(1) upt_add_eq_append [of 0 k "n - k"] by simp
  then have "[0..<n] = [0..<k] @ k # [Suc k..<n]"
    using assms(1) by (simp add: upt_conv_Cons)
  moreover have "first_empty_row names cm ([0..<k] @ k # [Suc k..<n])
      = first_empty_row names cm (k # [Suc k..<n])"
    using assms(3) by (intro first_empty_row_append) simp
  ultimately show ?thesis using assms(2) by simp
qed

lemma zero_one_row:
  assumes "set r \<subseteq> {0, 1::int}" and "sum_list r = 0" and "j < length r"
  shows "r ! j \<noteq> 1"
proof -
  have "\<forall>x\<in>set r. 0 \<le> x" using assms(1) by auto
  then have "\<forall>x\<in>set r. x = 0" using assms(2) by (simp add: sum_list_nonneg_eq_0_iff)
  moreover from assms(3) have "r ! j \<in> set r" by simp
  ultimately have "r ! j = 0" by blast
  then show ?thesis by simp
qed

lemma find_assignment_zero_row:
  assumes "length cm = length names"
    and "\<forall>r\<in>set cm. length r = length names \<and> set r \<subseteq> {0, 1}"
    and "i < length names" and "sum_list (cm ! i) = 0"
  shows "find_assignment names cm max_tries g
           = (Inr None, g\<lparr>drawn := drawn g + nat max_tries * (length names - 1)\<rparr>)"
proof -
  have rows: "length (cm ! t) = length names \<and> set (cm ! t) \<subseteq> {0, 1}" if "t < length names" for t
    using assms(1,2) that by simp
  have "find_loop (nat max_tries) names cm [0..<length names] g
           = (Inr None, g\<lparr>drawn := drawn g + nat max_tries * (length names - 1)\<rparr>)"
  proof (rule find_loop_zero_row)
    show "length names \<le> length cm" using assms(1) by simp
    show "length names \<le> length (cm ! t)" if "t < length names" for t using rows [OF that] by simp
    show "i < length names" by fact
    show "cm ! i ! j \<noteq> 1" if "j < length names" for j
      using rows [OF assms(3)] assms(4) that by (intro zero_one_row) simp_all
  qed
  moreover from assms(3) have "length names \<noteq> 0" by auto
  ultimately show ?thesis by (simp add: find_assignment_def)
qed

lemma build_compat_example:
  "build_compat (length [''A'', ''B'']) [''c_1_0'' \<mapsto> ''on''] = [[0, 0], [1, 0]]"
  by (simp add: build_compat_def form_key_def upt_rec str_nat.simps digit_char_def)

text \<open>
  Claim C3 (zero-row pre-check) does not hold for \<open>find_assignment\<close>, which has no
  such check: for names \<open>[A, B]\<close> and the matrix \<open>[[0, 0], [1, 0]]\<close>, whose row 0
  sums to zero, it shuffles \<open>max_tries\<close> times, consuming 100000 draws, and
  returns \<^verbatim>\<open>None\<close>.
\<close>

theorem find_assignment_zero_row_not_found:
  "sum_list ([[0, 0], [1, 0::int]] ! 0) = 0 \<and>
   find_assignment [''A'', ''B''] [[0, 0], [1, 0]] default_max_tries (const_rng 0 0)
     = (Inr None, const_rng 0 100000) \<and>
   drawn (snd (find_assignment [''A'', ''B''] [[0, 0], [1, 0]] default_max_tries (const_rng 0 0)))
     \<noteq> drawn (const_rng 0 0)"
proof -
  have "find_assignment [''A'', ''B''] [[0, 0], [1, 0]] default_max_tries (const_rng 0 0)
     = (Inr None, (const_rng 0 0)\<lparr>drawn := drawn (const_rng 0 0)
          + nat default_max_tries * (length [''A'', ''B''] - 1)\<rparr>)"
    by (rule find_assignment_zero_row [of _ _ 0]) simp_all
  then have "find_assignment [''A'', ''B''] [[0, 0], [1, 0]] default_max_tries (const_rng 0 0)
     = (Inr None, const_rng 0 100000)"
    by (simp add: const_rng_def default_max_tries_def)
  then show ?thesis by (simp add: const_rng_def)
qed

text \<open>
  Claim C3 as amended. The zero-row check is the validation of the
  \<^verbatim>\<open>admin_matrix\<close> POST, which takes no random source: if some row of the
  submitted matrix sums to zero, the submission is rejected naming the
  participant of the first such row. \<open>find_assignment\<close> itself, given an
  \<open>n \<times> n\<close> 0/1 matrix with a row summing to zero, returns \<^verbatim>\<open>None\<close> after
  \<open>max_tries\<close> shuffles of \<open>n - 1\<close> draws each.
\<close>

theorem zero_row_check:
  "(i < length names \<and> sum_list (build_compat (length names) form ! i) = 0 \<longrightarrow>
      (\<exists>k\<le>i. sum_list (build_compat (length names) form ! k) = 0 \<and>
         (\<forall>j<k. sum_list (build_compat (length names) form ! j) \<noteq> 0) \<and>
         admin_matrix_post names form = Inl (names ! k))) \<and>
   (length compat_matrix = length names \<and>
      (\<forall>r\<in>set compat_matrix. length r = length names \<and> set r \<subseteq> {0, 1}) \<and>
      i < length names \<and> sum_list (compat_matrix ! i) = 0 \<longrightarrow>
      find_assignment names compat_matrix max_tries g
        = (Inr None, g\<lparr>drawn := drawn g + nat max_tries * (length names - 1)\<rparr>))"
proof (intro conjI impI)
  let ?cm = "build_compat (length names) form"
  assume a: "i < length names \<and> sum_list (?cm ! i) = 0"
  let ?P = "\<lambda>k. sum_list (?cm ! k) = 0"
  let ?k = "LEAST k. ?P k"
  from a have P: "?P ?k" by (intro LeastI [of ?P i]) simp
  from a have le: "?k \<le> i" by (intro Least_le) simp
  have before: "sum_list (?cm ! j) \<noteq> 0" if "j < ?k" for j
    using not_less_Least [OF that] .
  from le a have "?k < length names" by simp
  from first_empty_row_upt [OF this P before, of names]
  have "admin_matrix_post names form = Inl (names ! ?k)"
    by (simp add: admin_matrix_post_def)
  with P le before
  show "\<exists>k\<le>i. sum_list (?cm ! k) = 0 \<and> (\<forall>j<k. sum_list (?cm ! j) \<noteq> 0) \<and>
         admin_matrix_post names form = Inl (names ! k)" by blast
next
  assume "length compat_matrix = length names \<and>
      (\<forall>r\<in>set compat_matrix. length r = length names \<and> set r \<subseteq> {0, 1}) \<and>
      i < length names \<and> sum_list (compat_matrix ! i) = 0"
  then show "find_assignment names compat_matrix max_tries g
        = (Inr None, g\<lparr>drawn := drawn g + nat max_tries * (length names - 1)\<rparr>)"
    by (intro find_assignment_zero_row [of compat_matrix names i]) simp_all
qed

theorem zero_row_check_witness:
  "build_compat (length [''A'', ''B'']) [''c_1_0'' \<mapsto> ''on''] = [[0, 0], [1, 0]] \<and>
   sum_list ([[0, 0], [1, 0::int]] ! 0) = 0 \<and>
   admin_matrix_post [''A'', ''B''] [''c_1_0'' \<mapsto> ''on''] = Inl ''A'' \<and>
   find_assignment [''A'', ''B''] [[0, 0], [1, 0]] 3 (const_rng 0 0) = (Inr None, const_rng 0 3)"
proof -
  note t = zero_row_check [of 0 "[''A'', ''B'']" "[''c_1_0'' \<mapsto> ''on'']" "[[0, 0], [1, 0]]" 3
      "const_rng 0 0"]
  have h1: "0 < length [''A'', ''B''] \<and>
      sum_list (build_compat (length [''A'', ''B'']) [''c_1_0'' \<mapsto> ''on''] ! 0) = 0"
    unfolding build_compat_example by simp
  have h2: "length [[0, 0], [1, 0::int]] = length [''A'', ''B''] \<and>
      (\<forall>r\<in>set [[0, 0], [1, 0::int]]. length r = length [''A'', ''B''] \<and> set r \<subseteq> {0, 1}) \<and>
      0 < length [''A'', ''B''] \<and> sum_list ([[0, 0], [1, 0::int]] ! 0) = 0"
    by simp
  from t [THEN conjunct1, THEN mp, OF h1]
  have "admin_matrix_post [''A'', ''B''] [''c_1_0'' \<mapsto> ''on''] = Inl ''A''" by auto
  moreover from t [THEN conjunct2, THEN mp, OF h2]
  have "find_assignment [''A'', ''B''] [[0, 0], [1, 0]] 3 (const_rng 0 0) = (Inr None, const_rng 0 3)"
    by (simp add: const_rng_def)
  ultimately show ?thesis using build_compat_example by simp
qed

end
